theory Spec2Isabelle
  imports Complex_Main
begin

section \<open>Numbers\<close>

text \<open>
  The code computes on C++ \<open>double\<close>. Sample times are only compared, subtracted and
  shifted by the code; they are taken to be finite and modelled by \<open>real\<close>. Sample values
  and slopes are results of the division in \<open>push_back\<close>, whose divisor is zero when two
  samples share a time instant, so they are modelled by the type \<open>double\<close> below: a finite
  number, an infinity or NaN, with the arithmetic of IEEE 754 on the special values.
  Overflow and the sign of zero are not modelled, and a zero divisor counts as positive
  zero. Differences, products and quotients of finite numbers are exact. The one
  addition on times, \<open>s.time += dt\<close> in \<open>shift\<close> and \<open>resize_shift\<close>, moves the times of
  samples whose slopes are already cached; its rounding to a double is the parameter
  \<open>rnd\<close> of these functions, so that two times may come closer or collapse as they do
  in the code.
\<close>

datatype double = Fin real | PInf | NInf | NaN

fun dneg :: "double \<Rightarrow> double" where
  "dneg (Fin a) = Fin (- a)"
| "dneg PInf = NInf"
| "dneg NInf = PInf"
| "dneg NaN = NaN"

fun dadd :: "double \<Rightarrow> double \<Rightarrow> double" where
  "dadd (Fin a) (Fin b) = Fin (a + b)"
| "dadd (Fin a) PInf = PInf"
| "dadd (Fin a) NInf = NInf"
| "dadd PInf (Fin b) = PInf"
| "dadd PInf PInf = PInf"
| "dadd PInf NInf = NaN"
| "dadd NInf (Fin b) = NInf"
| "dadd NInf NInf = NInf"
| "dadd NInf PInf = NaN"
| "dadd NaN b = NaN"
| "dadd a NaN = NaN"

definition dsub :: "double \<Rightarrow> double \<Rightarrow> double" where
  "dsub a b = dadd a (dneg b)"

text \<open>The sign of a product or quotient with an infinite operand.\<close>

definition signed_inf :: "bool \<Rightarrow> double" where
  "signed_inf positive = (if positive then PInf else NInf)"

fun dmul :: "double \<Rightarrow> double \<Rightarrow> double" where
  "dmul (Fin a) (Fin b) = Fin (a * b)"
| "dmul (Fin a) PInf = (if a = 0 then NaN else signed_inf (0 < a))"
| "dmul (Fin a) NInf = (if a = 0 then NaN else signed_inf (a < 0))"
| "dmul PInf (Fin b) = (if b = 0 then NaN else signed_inf (0 < b))"
| "dmul NInf (Fin b) = (if b = 0 then NaN else signed_inf (b < 0))"
| "dmul PInf PInf = PInf"
| "dmul PInf NInf = NInf"
| "dmul NInf PInf = NInf"
| "dmul NInf NInf = PInf"
| "dmul NaN b = NaN"
| "dmul a NaN = NaN"

fun ddiv :: "double \<Rightarrow> double \<Rightarrow> double" where
  "ddiv (Fin a) (Fin b) =
     (if b \<noteq> 0 then Fin (a / b)
      else if a = 0 then NaN
      else signed_inf (0 < a))"
| "ddiv (Fin a) PInf = Fin 0"
| "ddiv (Fin a) NInf = Fin 0"
| "ddiv PInf (Fin b) = signed_inf (0 \<le> b)"
| "ddiv NInf (Fin b) = signed_inf (b < 0)"
| "ddiv PInf PInf = NaN"
| "ddiv PInf NInf = NaN"
| "ddiv NInf PInf = NaN"
| "ddiv NInf NInf = NaN"
| "ddiv NaN b = NaN"
| "ddiv a NaN = NaN"

text \<open>The operator \<open>!=\<close> on doubles: NaN differs from everything, itself included.\<close>

definition dne :: "double \<Rightarrow> double \<Rightarrow> bool" where
  "dne a b = (a = NaN \<or> b = NaN \<or> a \<noteq> b)"

text \<open>The operator \<open>==\<close> on doubles: NaN equals nothing, itself included.\<close>

definition deq :: "double \<Rightarrow> double \<Rightarrow> bool" where
  "deq a b = (a \<noteq> NaN \<and> b \<noteq> NaN \<and> a = b)"

text \<open>\<open>std::isfinite\<close>: neither an infinity nor NaN.\<close>

fun is_finite :: "double \<Rightarrow> bool" where
  "is_finite (Fin a) = True"
| "is_finite d = False"

section \<open>Samples\<close>

text \<open>
  \<open>struct Sample { double time; double value; double derivative = 0.0; }\<close>.
  The field \<open>value\<close> is called \<open>val\<close> here.
\<close>

datatype Sample = Sample (time: real) (val: double) (derivative: double)

text \<open>\<open>Sample::interpolate\<close>: \<open>value + derivative * (t - time)\<close>.\<close>

definition interpolate :: "Sample \<Rightarrow> real \<Rightarrow> double" where
  "interpolate s t = dadd (val s) (dmul (derivative s) (Fin (t - time s)))"

section \<open>Signals\<close>

text \<open>
  A \<open>Signal\<close> holds one private field, the vector \<open>samples\<close>. Exceptions and reads
  outside a vector are results of the model: \<open>InvalidArgument\<close> is the
  \<open>std::invalid_argument\<close> thrown by \<open>push_back\<close> and by the array constructor,
  \<open>DomainError\<close> is the \<open>std::invalid_argument\<close> thrown by the bounds check of \<open>at\<close>, and
  \<open>OutOfBounds\<close> stands for dereferencing an iterator that points to no element
  (\<open>end()\<close>, or the predecessor of \<open>begin()\<close>), which C++ leaves undefined.
\<close>

type_synonym Signal = "Sample list"

datatype error = InvalidArgument | DomainError | OutOfBounds

definition begin_time :: "Signal \<Rightarrow> real" where
  "begin_time samples = (if samples = [] then 0 else time (hd samples))"

definition end_time :: "Signal \<Rightarrow> real" where
  "end_time samples = (if samples = [] then 0 else time (last samples))"

text \<open>
  \<open>std::lower_bound\<close> with the comparison \<open>a.time < b.time\<close>: the index of the furthest
  position such that every sample before it is timed before \<open>t\<close>. This is the result the
  C++ standard specifies for a range partitioned by the comparison, as the samples of a
  signal are, their times never decreasing (\<open>constructed_sorted\<close> below).
\<close>

definition lower_bound :: "Signal \<Rightarrow> real \<Rightarrow> nat" where
  "lower_bound samples t = length (takeWhile (\<lambda>s. time s < t) samples)"

text \<open>\<open>Signal::at\<close>.\<close>

definition at_time :: "Signal \<Rightarrow> real \<Rightarrow> error + Sample" where
  "at_time samples t =
     (if begin_time samples > t \<and> end_time samples < t then Inl DomainError
      else
        let it = lower_bound samples t in
        if length samples \<le> it then Inl OutOfBounds
        else if time (samples ! it) = t then Inr (samples ! it)
        else Inr (Sample t (interpolate (samples ! it) t) (derivative (samples ! it))))"

text \<open>
  \<open>Signal::push_back\<close>: the updated vector, or the exception. The last sample is
  rewritten with the slope towards the new one, and the new sample is stored with
  slope \<open>0.0\<close>.
\<close>

definition push_back :: "Signal \<Rightarrow> Sample \<Rightarrow> error + Signal" where
  "push_back samples sample =
     (if samples \<noteq> [] then
        if time sample < end_time samples then Inl InvalidArgument
        else
          (case last samples of Sample t v d \<Rightarrow>
             Inr (butlast samples
                  @ [Sample t v (ddiv (dsub (val sample) v) (Fin (time sample - t)))]
                  @ [Sample (time sample) (val sample) (Fin 0)]))
      else Inr [Sample (time sample) (val sample) (Fin 0)])"

text \<open>\<open>Signal::push_back(double time, double value)\<close>.\<close>

definition push_back_tv :: "Signal \<Rightarrow> real \<Rightarrow> double \<Rightarrow> error + Signal" where
  "push_back_tv samples t v = push_back samples (Sample t v (Fin 0))"

text \<open>
  The loop \<open>for (const auto s : data) { this->push_back(s); }\<close> shared by the copy
  constructor, the constructor from a sequence of samples and the constructor from an
  iterator range. An exception of \<open>push_back\<close> leaves the loop.
\<close>

fun push_all :: "Signal \<Rightarrow> Sample list \<Rightarrow> error + Signal" where
  "push_all sig [] = Inr sig"
| "push_all sig (s # data) =
     (case push_back sig s of
        Inl e \<Rightarrow> Inl e
      | Inr sig' \<Rightarrow> push_all sig' data)"

definition from_samples :: "Sample list \<Rightarrow> error + Signal" where
  "from_samples data = push_all [] data"

text \<open>\<open>Signal(const std::vector<double>& points, const std::vector<double>& times)\<close>.\<close>

definition from_arrays :: "double list \<Rightarrow> real list \<Rightarrow> error + Signal" where
  "from_arrays points ts =
     (if length points \<noteq> length ts then Inl InvalidArgument
      else push_all [] (map (\<lambda>i. Sample (ts ! i) (points ! i) (Fin 0)) [0..<length points]))"

text \<open>
  \<open>Signal::simplify\<close>. The loop runs over the samples of \<open>this\<close> with the signal under
  construction as its state; \<open>sig->back()\<close> is the last sample pushed so far.
\<close>

fun simplify_loop :: "Signal \<Rightarrow> Sample list \<Rightarrow> error + Signal" where
  "simplify_loop sig [] = Inr sig"
| "simplify_loop sig (s # rest) =
     (case s of Sample t v d \<Rightarrow>
        if sig = [] then
          (case push_back sig s of
             Inl e \<Rightarrow> Inl e
           | Inr sig' \<Rightarrow> simplify_loop sig' rest)
        else if dne (interpolate (last sig) t) v \<or> dne (derivative (last sig)) d then
          (case push_back sig s of
             Inl e \<Rightarrow> Inl e
           | Inr sig' \<Rightarrow> simplify_loop sig' rest)
        else simplify_loop sig rest)"

definition simplify :: "Signal \<Rightarrow> error + Signal" where
  "simplify samples =
     (case simplify_loop [] samples of
        Inl e \<Rightarrow> Inl e
      | Inr sig \<Rightarrow>
          if end_time samples \<noteq> end_time sig then
            (if samples = [] then Inl OutOfBounds else push_back sig (last samples))
          else Inr sig)"

text \<open>
  \<open>Signal::resize\<close>. The iterator \<open>i\<close> is an index into \<open>samples\<close>; \<open>std::next(i)\<close> is
  read only when it is not \<open>end()\<close> and \<open>std::prev(i)\<close> only when \<open>i\<close> is not \<open>begin()\<close>,
  as in the source. \<open>break\<close> returns the signal built so far.
\<close>

function resize_loop :: "Signal \<Rightarrow> real \<Rightarrow> real \<Rightarrow> nat \<Rightarrow> Signal \<Rightarrow> error + Signal" where
  "resize_loop samples start end' i sig =
     (if length samples \<le> i then Inr sig
      else if Suc i < length samples \<and> time (samples ! Suc i) > start then
        (case push_back sig (Sample start (interpolate (samples ! i) start) (Fin 0)) of
           Inl e \<Rightarrow> Inl e
         | Inr sig' \<Rightarrow> resize_loop samples start end' (Suc i) sig')
      else if start \<le> time (samples ! i) \<and> time (samples ! i) \<le> end' then
        (case push_back sig (samples ! i) of
           Inl e \<Rightarrow> Inl e
         | Inr sig' \<Rightarrow> resize_loop samples start end' (Suc i) sig')
      else if time (samples ! i) > end' then
        (if i \<noteq> 0 \<and> time (samples ! (i - 1)) < end' then
           (case push_back sig (Sample end' (interpolate (samples ! (i - 1)) end') (Fin 0)) of
              Inl e \<Rightarrow> Inl e
            | Inr sig' \<Rightarrow> resize_loop samples start end' (Suc i) sig')
         else Inr sig)
      else resize_loop samples start end' (Suc i) sig)"
  by pat_completeness auto
termination
  by (relation "measure (\<lambda>(samples, start, end', i, sig). length samples - i)") auto

definition resize :: "Signal \<Rightarrow> real \<Rightarrow> real \<Rightarrow> double \<Rightarrow> error + Signal" where
  "resize samples start end' fill =
     (if begin_time samples > start then
        (case push_back [] (Sample start fill (Fin 0)) of
           Inl e \<Rightarrow> Inl e
         | Inr sig \<Rightarrow> resize_loop samples start end' 0 sig)
      else resize_loop samples start end' 0 [])"

text \<open>
  The loop \<open>for (auto& s : sig->samples) { s.time += dt; }\<close>. The new time is the double
  nearest to the exact sum: \<open>rnd\<close> is the rounding of a real number to a double. Values
  and slopes stay as they are.
\<close>

definition shift_times :: "(real \<Rightarrow> real) \<Rightarrow> real \<Rightarrow> Signal \<Rightarrow> Signal" where
  "shift_times rnd dt samples =
     map (\<lambda>s. Sample (rnd (time s + dt)) (val s) (derivative s)) samples"

text \<open>\<open>Signal::shift\<close>: a copy built by the constructor from a sequence, then shifted.\<close>

definition shift :: "(real \<Rightarrow> real) \<Rightarrow> Signal \<Rightarrow> real \<Rightarrow> error + Signal" where
  "shift rnd samples dt =
     (case from_samples samples of
        Inl e \<Rightarrow> Inl e
      | Inr sig \<Rightarrow> Inr (shift_times rnd dt sig))"

text \<open>\<open>Signal::resize_shift\<close>.\<close>

definition resize_shift ::
  "(real \<Rightarrow> real) \<Rightarrow> Signal \<Rightarrow> real \<Rightarrow> real \<Rightarrow> double \<Rightarrow> real \<Rightarrow> error + Signal" where
  "resize_shift rnd samples start end' fill dt =
     (case resize samples start end' fill of
        Inl e \<Rightarrow> Inl e
      | Inr out \<Rightarrow> Inr (shift_times rnd dt out))"

text \<open>
  An instance of the rounding: from \<open>2^56\<close> to \<open>2^57\<close> the doubles are the multiples of 16,
  and a number in that range rounds to the nearest multiple, to the even one of two
  equally near.
\<close>

definition round_to_16 :: "real \<Rightarrow> real" where
  "round_to_16 u =
     (let q = u / 16; f = \<lfloor>q\<rfloor> in
      16 * of_int (if q - of_int f < 1 / 2 then f
                   else if 1 / 2 < q - of_int f then f + 1
                   else if even f then f else f + 1))"

text \<open>
  \<open>synchronize\<close>. The merge loop runs two indices \<open>i\<close> into \<open>x\<close> and \<open>j\<close> into \<open>y\<close> and
  appends to the vectors \<open>xv\<close> and \<open>yv\<close>. Times are totally ordered here, so the third
  test of the source, \<open>j->time < i->time\<close>, is the remaining case.
\<close>

function sync_loop ::
  "Signal \<Rightarrow> Signal \<Rightarrow> nat \<Rightarrow> nat \<Rightarrow> Sample list \<Rightarrow> Sample list
     \<Rightarrow> error + (Sample list \<times> Sample list)" where
  "sync_loop x y i j xv yv =
     (if i < length x \<and> j < length y then
        if time (x ! i) = time (y ! j) then
          sync_loop x y (Suc i) (Suc j) (xv @ [x ! i]) (yv @ [y ! j])
        else if time (x ! i) < time (y ! j) then
          (if j = 0 then Inl OutOfBounds
           else sync_loop x y (Suc i) j
                  (xv @ [x ! i])
                  (yv @ [Sample (time (x ! i)) (interpolate (y ! (j - 1)) (time (x ! i))) (Fin 0)]))
        else
          (if i = 0 then Inl OutOfBounds
           else sync_loop x y i (Suc j)
                  (xv @ [Sample (time (y ! j)) (interpolate (x ! (i - 1)) (time (y ! j))) (Fin 0)])
                  (yv @ [y ! j]))
      else Inr (xv, yv))"
  by pat_completeness auto
termination
  by (relation "measure (\<lambda>(x, y, i, j, xv, yv). (length x - i) + (length y - j))") auto

text \<open>
  The two blocks after the loop, which append to the output that ends earlier a sample
  at the other output's last time. \<open>back()\<close> of an empty vector is out of bounds.
\<close>

definition sync_finish :: "Sample list \<Rightarrow> Sample list \<Rightarrow> error + (Sample list \<times> Sample list)" where
  "sync_finish xv yv =
     (if xv = [] \<or> yv = [] then Inl OutOfBounds
      else
        let yv' = (if time (last yv) < time (last xv)
                   then yv @ [Sample (time (last xv)) (interpolate (last yv) (time (last xv))) (Fin 0)]
                   else yv);
            xv' = (if time (last xv) < time (last yv')
                   then xv @ [Sample (time (last yv')) (interpolate (last xv) (time (last yv'))) (Fin 0)]
                   else xv)
        in Inr (xv', yv'))"

text \<open>
  The leading sample of an output: \<open>k\<close> is the index found by \<open>lower_bound\<close> in \<open>s\<close>, and
  the slope is read from \<open>std::prev\<close> of the index \<open>kd\<close> in \<open>sd\<close>. For \<open>xv\<close> both are
  \<open>i\<close> in \<open>x\<close>; for \<open>yv\<close> the source interpolates from \<open>std::prev(j)\<close> and reads the slope
  from \<open>std::prev(i)\<close>.
\<close>

definition sync_lead ::
  "real \<Rightarrow> Signal \<Rightarrow> nat \<Rightarrow> Signal \<Rightarrow> nat \<Rightarrow> error + Sample list" where
  "sync_lead begin_t s k sd kd =
     (if length s \<le> k then Inl OutOfBounds
      else if time (s ! k) > begin_t \<and> k \<noteq> 0 then
        (if kd = 0 \<or> length sd < kd then Inl OutOfBounds
         else Inr [Sample begin_t (interpolate (s ! (k - 1)) begin_t) (derivative (sd ! (kd - 1)))])
      else Inr [])"

text \<open>\<open>std::make_tuple(std::make_shared<Signal>(xv), std::make_shared<Signal>(yv))\<close>.\<close>

definition make_signals :: "Sample list \<Rightarrow> Sample list \<Rightarrow> error + (Signal \<times> Signal)" where
  "make_signals xv yv =
     (case from_samples xv of
        Inl e \<Rightarrow> Inl e
      | Inr x' \<Rightarrow>
          (case from_samples yv of
             Inl e \<Rightarrow> Inl e
           | Inr y' \<Rightarrow> Inr (x', y')))"

definition synchronize :: "Signal \<Rightarrow> Signal \<Rightarrow> error + (Signal \<times> Signal)" where
  "synchronize x y =
     (let begin_t = max (begin_time x) (begin_time y);
          i = lower_bound x begin_t;
          j = lower_bound y begin_t
      in
        case sync_lead begin_t x i x i of
          Inl e \<Rightarrow> Inl e
        | Inr xv \<Rightarrow>
            (case sync_lead begin_t y j x i of
               Inl e \<Rightarrow> Inl e
             | Inr yv \<Rightarrow>
                 (case sync_loop x y i j xv yv of
                    Inl e \<Rightarrow> Inl e
                  | Inr (xv1, yv1) \<Rightarrow>
                      (case sync_finish xv1 yv1 of
                         Inl e \<Rightarrow> Inl e
                       | Inr (xv2, yv2) \<Rightarrow> make_signals xv2 yv2))))"

section \<open>Invariants of the data model\<close>

text \<open>Sample times strictly increasing: no two samples share a time instant.\<close>

definition strictly_increasing :: "Signal \<Rightarrow> bool" where
  "strictly_increasing samples = sorted_wrt (<) (map time samples)"

text \<open>
  The cached slope: every sample with a successor stores a slope that compares equal, by
  \<open>==\<close> on doubles, to the quotient of the value difference by the time difference towards
  the successor, and the last sample stores a slope equal to 0.
\<close>

fun deriv_inv :: "Signal \<Rightarrow> bool" where
  "deriv_inv [] = True"
| "deriv_inv [s] = deq (derivative s) (Fin 0)"
| "deriv_inv (s # n # rest) =
     (deq (derivative s) (ddiv (dsub (val n) (val s)) (Fin (time n - time s)))
      \<and> deriv_inv (n # rest))"

text \<open>
  The signals that the public interface produces: the empty signal of the default
  constructor, a successful \<open>push_back\<close> on a signal under construction, the constructors
  from samples and from arrays, and the results of \<open>simplify\<close>, \<open>resize\<close>, \<open>shift\<close>,
  \<open>resize_shift\<close> and \<open>synchronize\<close> on such signals, for a rounding \<open>rnd\<close> of the sums in
  \<open>shift\<close> and \<open>resize_shift\<close>.
\<close>

inductive constructed :: "(real \<Rightarrow> real) \<Rightarrow> Signal \<Rightarrow> bool" for rnd :: "real \<Rightarrow> real" where
  empty: "constructed rnd []"
| push_back: "constructed rnd sig \<Longrightarrow> push_back sig s = Inr sig' \<Longrightarrow> constructed rnd sig'"
| push_back_tv:
    "constructed rnd sig \<Longrightarrow> push_back_tv sig t v = Inr sig' \<Longrightarrow> constructed rnd sig'"
| from_samples: "from_samples data = Inr sig \<Longrightarrow> constructed rnd sig"
| from_arrays: "from_arrays points ts = Inr sig \<Longrightarrow> constructed rnd sig"
| simplify: "constructed rnd x \<Longrightarrow> simplify x = Inr sig \<Longrightarrow> constructed rnd sig"
| resize:
    "constructed rnd x \<Longrightarrow> resize x start end' fill = Inr sig \<Longrightarrow> constructed rnd sig"
| shift: "constructed rnd x \<Longrightarrow> shift rnd x dt = Inr sig \<Longrightarrow> constructed rnd sig"
| resize_shift:
    "constructed rnd x \<Longrightarrow> resize_shift rnd x start end' fill dt = Inr sig
     \<Longrightarrow> constructed rnd sig"
| synchronize_fst:
    "constructed rnd x \<Longrightarrow> constructed rnd y \<Longrightarrow> synchronize x y = Inr (x', y')
     \<Longrightarrow> constructed rnd x'"
| synchronize_snd:
    "constructed rnd x \<Longrightarrow> constructed rnd y \<Longrightarrow> synchronize x y = Inr (x', y')
     \<Longrightarrow> constructed rnd y'"

declare resize_loop.simps [simp del]
declare sync_loop.simps [simp del]

section \<open>Effect of \<open>push_back\<close>\<close>

lemma push_back_times:
  "push_back sig s = Inr r \<Longrightarrow> map time r = map time sig @ [time s]"
proof (cases "sig = []")
  case True
  assume "push_back sig s = Inr r"
  with True show ?thesis by (auto simp: push_back_def)
next
  case False
  assume pb: "push_back sig s = Inr r"
  from False have "map time sig = map time (butlast sig) @ [time (last sig)]"
    by (metis append_butlast_last_id list.simps(8,9) map_append)
  with pb False show ?thesis
    by (auto simp: push_back_def split: if_splits Sample.splits)
qed

lemma push_back_succeeds:
  assumes "sig = [] \<or> end_time sig \<le> time s"
  shows "\<exists>r. push_back sig s = Inr r"
  using assms by (auto simp: push_back_def split: Sample.splits)

lemma push_back_head:
  assumes "sig \<noteq> []" and "push_back sig s = Inr r"
  shows "r \<noteq> [] \<and> time (hd r) = time (hd sig) \<and> val (hd r) = val (hd sig)"
proof (cases "butlast sig")
  case Nil
  with assms(1) have "sig = [last sig]" by (metis append_butlast_last_id append_Nil)
  then obtain a where "sig = [a]" ..
  with assms(2) show ?thesis
    by (auto simp: push_back_def split: if_splits Sample.splits)
next
  case (Cons a as)
  with assms(1) have "sig = a # as @ [last sig]" by (metis append_butlast_last_id append_Cons)
  with assms Cons show ?thesis
    by (auto simp: push_back_def split: if_splits Sample.splits)
qed

text \<open>
  Every loop of the code that builds a signal does so by \<open>push_back\<close> alone, so a property
  that \<open>push_back\<close> preserves holds of what the loop returns.
\<close>

lemma push_all_preserves:
  assumes step: "\<forall>sig s r. P sig \<longrightarrow> push_back sig s = Inr r \<longrightarrow> P r"
  shows "P sig \<Longrightarrow> push_all sig data = Inr r \<Longrightarrow> P r"
proof (induction data arbitrary: sig)
  case Nil
  then show ?case by simp
next
  case (Cons s data)
  then show ?case by (auto split: sum.splits dest: step[rule_format])
qed

lemma simplify_loop_preserves:
  assumes step: "\<forall>sig s r. P sig \<longrightarrow> push_back sig s = Inr r \<longrightarrow> P r"
  shows "P sig \<Longrightarrow> simplify_loop sig data = Inr r \<Longrightarrow> P r"
proof (induction data arbitrary: sig)
  case Nil
  then show ?case by simp
next
  case (Cons s data)
  then show ?case by (auto split: sum.splits Sample.splits if_splits dest: step[rule_format])
qed

lemma resize_loop_preserves:
  assumes step: "\<forall>sig s r. P sig \<longrightarrow> push_back sig s = Inr r \<longrightarrow> P r"
  shows "P sig \<Longrightarrow> resize_loop samples start end' i sig = Inr r \<Longrightarrow> P r"
proof (induction samples start end' i sig rule: resize_loop.induct)
  case (1 samples start end' i sig)
  note unfolded = "1.prems"(2)[unfolded resize_loop.simps[of samples start end' i sig]]
  show ?case
  proof (cases "length samples \<le> i")
    case True
    with unfolded "1.prems"(1) show ?thesis by simp
  next
    case out: False
    show ?thesis
    proof (cases "Suc i < length samples \<and> time (samples ! Suc i) > start")
      case True
      with unfolded out obtain sig' where
        pb: "push_back sig (Sample start (interpolate (samples ! i) start) (Fin 0)) = Inr sig'"
        and rec: "resize_loop samples start end' (Suc i) sig' = Inr r"
        by (auto split: sum.splits)
      from step[rule_format, OF "1.prems"(1) pb] have "P sig'" .
      from "1.IH"(1)[OF out True pb this rec] show ?thesis .
    next
      case b1: False
      show ?thesis
      proof (cases "start \<le> time (samples ! i) \<and> time (samples ! i) \<le> end'")
        case True
        with unfolded out b1 obtain sig' where
          pb: "push_back sig (samples ! i) = Inr sig'"
          and rec: "resize_loop samples start end' (Suc i) sig' = Inr r"
          by (auto split: sum.splits)
        from step[rule_format, OF "1.prems"(1) pb] have "P sig'" .
        from "1.IH"(2)[OF out b1 True pb this rec] show ?thesis .
      next
        case b2: False
        show ?thesis
        proof (cases "time (samples ! i) > end'")
          case b3: True
          show ?thesis
          proof (cases "i \<noteq> 0 \<and> time (samples ! (i - 1)) < end'")
            case True
            with unfolded out b1 b2 b3 obtain sig' where
              pb: "push_back sig (Sample end' (interpolate (samples ! (i - 1)) end') (Fin 0)) = Inr sig'"
              and rec: "resize_loop samples start end' (Suc i) sig' = Inr r"
              by (auto split: sum.splits)
            from step[rule_format, OF "1.prems"(1) pb] have "P sig'" .
            from "1.IH"(3)[OF out b1 b2 b3 True pb this rec] show ?thesis .
          next
            case False
            with unfolded out b1 b2 b3 "1.prems"(1) show ?thesis by (auto split: if_splits)
          qed
        next
          case b3: False
          with unfolded out b1 b2 have rec: "resize_loop samples start end' (Suc i) sig = Inr r"
            by (auto split: if_splits)
          from "1.IH"(4)[OF out b1 b2 b3 "1.prems"(1) rec] show ?thesis .
        qed
      qed
    qed
  qed
qed

lemma simplify_preserves:
  assumes init: "P []"
    and step: "\<forall>sig s r. P sig \<longrightarrow> push_back sig s = Inr r \<longrightarrow> P r"
    and res: "simplify x = Inr r"
  shows "P r"
proof -
  from res obtain s0 where loop: "simplify_loop [] x = Inr s0"
    by (auto simp: simplify_def split: sum.splits)
  have "P s0" using init loop by (rule simplify_loop_preserves[where P = P, OF step])
  with res loop show ?thesis
    by (auto simp: simplify_def split: if_splits dest: step[rule_format])
qed

lemma resize_preserves:
  assumes init: "P []"
    and step: "\<forall>sig s r. P sig \<longrightarrow> push_back sig s = Inr r \<longrightarrow> P r"
    and res: "resize x start end' fill = Inr r"
  shows "P r"
proof (cases "begin_time x > start")
  case True
  with res obtain s0 where pb: "push_back [] (Sample start fill (Fin 0)) = Inr s0"
    and loop: "resize_loop x start end' 0 s0 = Inr r"
    by (auto simp: resize_def split: sum.splits)
  from step[rule_format, OF init pb] have "P s0" .
  then show ?thesis using loop by (rule resize_loop_preserves[where P = P, OF step])
next
  case False
  with res have "resize_loop x start end' 0 [] = Inr r" by (simp add: resize_def)
  with init show ?thesis by (rule resize_loop_preserves[where P = P, OF step])
qed

lemma make_signals_preserves:
  assumes init: "P []"
    and step: "\<forall>sig s r. P sig \<longrightarrow> push_back sig s = Inr r \<longrightarrow> P r"
    and res: "make_signals xv yv = Inr (x', y')"
  shows "P x' \<and> P y'"
proof -
  from res have "push_all [] xv = Inr x'" and "push_all [] yv = Inr y'"
    by (auto simp: make_signals_def from_samples_def split: sum.splits)
  with init show ?thesis by (blast intro: push_all_preserves[where P = P, OF step])
qed

lemma synchronize_preserves:
  assumes init: "P []"
    and step: "\<forall>sig s r. P sig \<longrightarrow> push_back sig s = Inr r \<longrightarrow> P r"
    and res: "synchronize x y = Inr (x', y')"
  shows "P x' \<and> P y'"
proof -
  from res obtain xv yv where "make_signals xv yv = Inr (x', y')"
    by (auto simp: synchronize_def Let_def split: sum.splits prod.splits)
  then show ?thesis by (rule make_signals_preserves[where P = P, OF init step])
qed

lemma constructed_invariant:
  assumes init: "P []"
    and step: "\<forall>sig s r. P sig \<longrightarrow> push_back sig s = Inr r \<longrightarrow> P r"
    and moved: "\<And>sig dt. P sig \<Longrightarrow> P (shift_times rnd dt sig)"
    and c: "constructed rnd sig"
  shows "P sig"
  using c
proof (induction rule: constructed.induct)
  case empty
  show ?case by (rule init)
next
  case (push_back sig s sig')
  then show ?case by (blast intro: step[rule_format])
next
  case (push_back_tv sig t v sig')
  then show ?case unfolding push_back_tv_def by (blast intro: step[rule_format])
next
  case (from_samples data sig)
  then have "push_all [] data = Inr sig" by (simp add: from_samples_def)
  with init show ?case by (rule push_all_preserves[where P = P, OF step])
next
  case (from_arrays points ts sig)
  then have "push_all [] (map (\<lambda>i. Sample (ts ! i) (points ! i) (Fin 0)) [0..<length points]) = Inr sig"
    by (simp add: from_arrays_def split: if_splits)
  with init show ?case by (rule push_all_preserves[where P = P, OF step])
next
  case (simplify x sig)
  from init step simplify(2) show ?case by (rule simplify_preserves[where P = P])
next
  case (resize x start end' fill sig)
  from init step resize(2) show ?case by (rule resize_preserves[where P = P])
next
  case (shift x dt sig)
  from shift(2) obtain s0 where "push_all [] x = Inr s0" and sig: "sig = shift_times rnd dt s0"
    by (auto simp: shift_def from_samples_def split: sum.splits)
  with init have "P s0" by (blast intro: push_all_preserves[where P = P, OF step])
  with sig show ?case by (simp add: moved)
next
  case (resize_shift x start end' fill dt sig)
  from resize_shift(2) obtain out where r: "resize x start end' fill = Inr out"
    and sig: "sig = shift_times rnd dt out"
    by (auto simp: resize_shift_def split: sum.splits)
  from init step r have "P out" by (rule resize_preserves[where P = P])
  with sig show ?case by (simp add: moved)
next
  case (synchronize_fst x y x' y')
  from synchronize_preserves[where P = P, OF init step synchronize_fst(3)] show ?case by simp
next
  case (synchronize_snd x y x' y')
  from synchronize_preserves[where P = P, OF init step synchronize_snd(3)] show ?case by simp
qed

text \<open>
  Sample times never decrease along a signal: \<open>push_back\<close> refuses a time below the end
  time, and the rounded sum of \<open>shift\<close> is monotone in the time, as rounding to the
  nearest double is.
\<close>

lemma push_back_sorted:
  assumes "sorted (map time sig)" and "push_back sig s = Inr r"
  shows "sorted (map time r)"
proof (cases "sig = []")
  case True
  with assms(2) show ?thesis by (auto simp: push_back_def)
next
  case False
  with assms(2) have le: "end_time sig \<le> time s"
    by (auto simp: push_back_def split: if_splits)
  have "u \<le> time s" if "u \<in> set (map time sig)" for u
  proof -
    from that obtain k where k: "k < length sig" and u: "u = map time sig ! k"
      by (auto simp: in_set_conv_nth)
    from assms(1) k have "map time sig ! k \<le> map time sig ! (length sig - 1)"
      by (intro sorted_nth_mono) auto
    with False k u have "u \<le> end_time sig" by (simp add: end_time_def last_conv_nth)
    with le show ?thesis by simp
  qed
  with assms(1) push_back_times[OF assms(2)] show ?thesis by (simp add: sorted_append)
qed

lemma shift_times_sorted:
  assumes "mono rnd" and "sorted (map time sig)"
  shows "sorted (map time (shift_times rnd dt sig))"
proof -
  have "map time (shift_times rnd dt sig) = map (\<lambda>u. rnd (u + dt)) (map time sig)"
    by (simp add: shift_times_def)
  moreover have "sorted (map (\<lambda>u. rnd (u + dt)) (map time sig))"
    using assms by (intro sorted_map_mono) (auto simp: mono_on_def mono_def)
  ultimately show ?thesis by simp
qed

lemma constructed_sorted:
  assumes "mono rnd" and "constructed rnd sig"
  shows "sorted (map time sig)"
proof -
  let ?P = "\<lambda>sig. sorted (map time sig)"
  have init: "?P []" by simp
  have step: "\<forall>sig s r. ?P sig \<longrightarrow> push_back sig s = Inr r \<longrightarrow> ?P r"
    by (blast intro: push_back_sorted)
  from init step shift_times_sorted[OF assms(1)] assms(2) show ?thesis
    by (rule constructed_invariant[where P = ?P])
qed

section \<open>Sample times accepted by \<open>push_back\<close>\<close>

text \<open>
  A time below the end time is refused and nothing is stored; a time equal to the end
  time is appended.
\<close>

lemma push_back_rejects_earlier:
  "samples \<noteq> [] \<Longrightarrow> time sample < end_time samples \<Longrightarrow> push_back samples sample = Inl InvalidArgument"
  by (simp add: push_back_def)

lemma push_back_accepts_end_time:
  assumes "samples \<noteq> []" and "time sample = end_time samples"
  shows "\<exists>r. push_back samples sample = Inr r \<and> map time r = map time samples @ [end_time samples]"
proof -
  from assms obtain r where r: "push_back samples sample = Inr r"
    using push_back_succeeds[of samples sample] by auto
  from push_back_times[OF r] assms(2) r show ?thesis by simp
qed

text \<open>
  C4. On a non-empty signal, \<open>push_back\<close> of a sample timed at or before the current
  end time is to fail with \<open>InvalidArgument\<close> and leave the signal unchanged. The test in
  the source is \<open>sample.time < end_time()\<close>: a sample timed exactly at the end time is
  appended, and the slope patched into the previous sample is a quotient by zero. Here
  the signal holds the sample \<open>(0, 0)\<close> and \<open>(0, 1)\<close> is pushed.
\<close>

theorem push_back_accepts_equal_time:
  "push_back [Sample 0 (Fin 0) (Fin 0)] (Sample 0 (Fin 1) (Fin 0))
     = Inr [Sample 0 (Fin 0) PInf, Sample 0 (Fin 1) (Fin 0)]"
  by code_simp

text \<open>
  C5. Every signal produced through a public construction path is to have strictly
  increasing sample times. Two paths of the code produce a repeated time. The constructor
  from a sequence of samples accepts \<open>(0, 0), (0, 1)\<close>, because \<open>push_back\<close> rejects only a
  time below the end time. And \<open>resize(-1, 3, 5)\<close> of the signal \<open>(0, 0), (2, 4)\<close>, whose
  times are strictly increasing, pushes the fill sample at \<open>-1\<close> and then, for the first
  sample, a second sample at \<open>-1\<close>.
\<close>

theorem constructed_times_not_strict:
  "from_samples [Sample 0 (Fin 0) (Fin 0), Sample 0 (Fin 1) (Fin 0)]
     = Inr [Sample 0 (Fin 0) PInf, Sample 0 (Fin 1) (Fin 0)]
   \<and> \<not> strictly_increasing [Sample 0 (Fin 0) PInf, Sample 0 (Fin 1) (Fin 0)]
   \<and> from_samples [Sample 0 (Fin 0) (Fin 0), Sample 2 (Fin 4) (Fin 0)]
     = Inr [Sample 0 (Fin 0) (Fin 2), Sample 2 (Fin 4) (Fin 0)]
   \<and> strictly_increasing [Sample 0 (Fin 0) (Fin 2), Sample 2 (Fin 4) (Fin 0)]
   \<and> resize [Sample 0 (Fin 0) (Fin 2), Sample 2 (Fin 4) (Fin 0)] (- 1) 3 (Fin 5)
     = Inr [Sample (- 1) (Fin 5) NInf, Sample (- 1) (Fin (- 2)) (Fin 2), Sample 2 (Fin 4) (Fin 0)]
   \<and> \<not> strictly_increasing
         [Sample (- 1) (Fin 5) NInf, Sample (- 1) (Fin (- 2)) (Fin 2), Sample 2 (Fin 4) (Fin 0)]"
  by code_simp

section \<open>The cached slope\<close>

text \<open>
  A signal that the constructors build, with strictly increasing times and finite values,
  satisfies the invariant of the cached slope: \<open>push_back\<close> stores the quotient, a finite
  number, in the previous sample and 0 in the new one.
\<close>

lemma push_back_vals:
  "push_back sig s = Inr r \<Longrightarrow> map val r = map val sig @ [val s]"
proof (cases "sig = []")
  case True
  assume "push_back sig s = Inr r"
  with True show ?thesis by (auto simp: push_back_def)
next
  case False
  assume pb: "push_back sig s = Inr r"
  from False have "map val sig = map val (butlast sig) @ [val (last sig)]"
    by (metis append_butlast_last_id list.simps(8,9) map_append)
  with pb False show ?thesis
    by (auto simp: push_back_def split: if_splits Sample.splits)
qed

lemma push_all_times_vals:
  "push_all sig data = Inr r \<Longrightarrow>
   map time r = map time sig @ map time data \<and> map val r = map val sig @ map val data"
proof (induction data arbitrary: sig)
  case Nil
  then show ?case by simp
next
  case (Cons s data)
  from Cons.prems obtain sig' where pb: "push_back sig s = Inr sig'"
    and rest: "push_all sig' data = Inr r"
    by (auto split: sum.splits)
  from Cons.IH[OF rest] push_back_times[OF pb] push_back_vals[OF pb] show ?case by simp
qed

lemma deriv_inv_snoc:
  assumes "deriv_inv (xs @ [a])" and "time a < time b"
    and "is_finite (val a)" and "is_finite (val b)"
  shows "deriv_inv (xs @ [Sample (time a) (val a)
                            (ddiv (dsub (val b) (val a)) (Fin (time b - time a))),
                          Sample (time b) (val b) (Fin 0)])"
proof -
  from assms(3,4) obtain u w where "val a = Fin u" "val b = Fin w"
    by (metis is_finite.elims(2))
  with assms(2) have q: "deq (ddiv (dsub (val b) (val a)) (Fin (time b - time a)))
                            (ddiv (dsub (val b) (val a)) (Fin (time b - time a)))"
    by (simp add: deq_def dsub_def)
  have z: "deq (Fin 0) (Fin 0)" by (simp add: deq_def)
  from assms(1) show ?thesis
  proof (induction xs rule: deriv_inv.induct)
    case 1
    from q z show ?case by simp
  next
    case (2 s)
    with q z show ?case by simp
  next
    case (3 s n rest)
    then show ?case by simp
  qed
qed

lemma push_all_deriv_inv:
  assumes "deriv_inv sig" and "push_all sig data = Inr r"
    and "strictly_increasing r" and "\<forall>s\<in>set r. is_finite (val s)"
  shows "deriv_inv r"
  using assms(1,2)
proof (induction data arbitrary: sig)
  case Nil
  then show ?case by simp
next
  case (Cons s data)
  from Cons.prems(2) obtain sig' where pb: "push_back sig s = Inr sig'"
    and rest: "push_all sig' data = Inr r"
    by (auto split: sum.splits)
  from push_all_times_vals[OF Cons.prems(2)]
  have tr: "map time r = map time sig @ time s # map time data"
    and vr: "map val r = map val sig @ val s # map val data" by simp_all
  have "deriv_inv sig'"
  proof (cases "sig = []")
    case True
    with pb show ?thesis by (auto simp: push_back_def deq_def)
  next
    case False
    obtain t v d where l: "last sig = Sample t v d" by (cases "last sig")
    from False have sg: "sig = butlast sig @ [last sig]" by simp
    from pb False l have sig': "sig' = butlast sig
        @ [Sample t v (ddiv (dsub (val s) v) (Fin (time s - t))), Sample (time s) (val s) (Fin 0)]"
      by (auto simp: push_back_def split: if_splits)
    from assms(3) tr have "sorted_wrt (<) (map time sig @ time s # map time data)"
      by (simp add: strictly_increasing_def)
    moreover from False have "time (last sig) \<in> set (map time sig)" by simp
    ultimately have lt: "time (last sig) < time s" by (auto simp: sorted_wrt_append)
    have fin: "is_finite w" if "w \<in> set (map val r)" for w
      using that assms(4) by auto
    from False have "val (last sig) \<in> set (map val sig)" by simp
    with vr have "is_finite (val (last sig))" and "is_finite (val s)"
      by (auto intro: fin)
    with Cons.prems(1) sg lt
    have "deriv_inv (butlast sig @ [Sample (time (last sig)) (val (last sig))
              (ddiv (dsub (val s) (val (last sig))) (Fin (time s - time (last sig)))),
            Sample (time s) (val s) (Fin 0)])"
      by (intro deriv_inv_snoc) simp_all
    with sig' l show ?thesis by simp
  qed
  from Cons.IH[OF this rest] show ?case .
qed

lemma from_samples_deriv_inv:
  assumes "from_samples data = Inr r"
    and "strictly_increasing r" and "\<forall>s\<in>set r. is_finite (val s)"
  shows "deriv_inv r"
proof -
  have "deriv_inv []" by simp
  moreover from assms(1) have "push_all [] data = Inr r" by (simp add: from_samples_def)
  ultimately show ?thesis using assms(2,3) by (rule push_all_deriv_inv)
qed

text \<open>
  C6. Every signal produced through a public construction path is to satisfy the
  invariant of the cached slope: a sample with a successor stores
  \<open>derivative == (next.value - value) / (next.time - time)\<close>, and the last sample stores 0.
  The flat signal \<open>(0, 1), (1, 1), (2, 1)\<close> satisfies it. Its \<open>resize(0, 2, 7)\<close> pushes two
  samples at time 0 with value 1, one for each sample that has a successor, and
  \<open>push_back\<close> patches the first with the slope \<open>(1 - 1) / (0 - 0)\<close>: that is NaN, which
  compares equal to no double, the quotient included.
\<close>

theorem resize_stores_nan_slope:
  "from_samples [Sample 0 (Fin 1) (Fin 0), Sample 1 (Fin 1) (Fin 0), Sample 2 (Fin 1) (Fin 0)]
     = Inr [Sample 0 (Fin 1) (Fin 0), Sample 1 (Fin 1) (Fin 0), Sample 2 (Fin 1) (Fin 0)]
   \<and> deriv_inv [Sample 0 (Fin 1) (Fin 0), Sample 1 (Fin 1) (Fin 0), Sample 2 (Fin 1) (Fin 0)]
   \<and> resize [Sample 0 (Fin 1) (Fin 0), Sample 1 (Fin 1) (Fin 0), Sample 2 (Fin 1) (Fin 0)]
        0 2 (Fin 7)
     = Inr [Sample 0 (Fin 1) NaN, Sample 0 (Fin 1) (Fin 0), Sample 2 (Fin 1) (Fin 0)]
   \<and> ddiv (dsub (Fin 1) (Fin 1)) (Fin (0 - 0)) = NaN
   \<and> \<not> deriv_inv [Sample 0 (Fin 1) NaN, Sample 0 (Fin 1) (Fin 0), Sample 2 (Fin 1) (Fin 0)]"
  by code_simp

text \<open>
  \<open>shift\<close> breaks the invariant in another way: it adds \<open>dt\<close> to the times after the
  slopes were cached. \<open>shift(1e17)\<close> of the signal \<open>(0, 0), (1, 1)\<close> rounds both sums to
  \<open>1e17\<close>; the first sample keeps slope 1, and the quotient towards its successor is now
  a division by zero.
\<close>

lemma shift_collapses_times:
  "shift round_to_16 [Sample 0 (Fin 0) (Fin 1), Sample 1 (Fin 1) (Fin 0)] 100000000000000000
     = Inr [Sample 100000000000000000 (Fin 0) (Fin 1), Sample 100000000000000000 (Fin 1) (Fin 0)]
   \<and> \<not> deriv_inv
         [Sample 100000000000000000 (Fin 0) (Fin 1), Sample 100000000000000000 (Fin 1) (Fin 0)]"
  by code_simp

lemma mono_round_to_16: "mono round_to_16"
proof (rule monoI)
  fix u v :: real assume uv: "u \<le> v"
  let ?r = "\<lambda>q::real. (if q - of_int \<lfloor>q\<rfloor> < 1 / 2 then \<lfloor>q\<rfloor>
                   else if 1 / 2 < q - of_int \<lfloor>q\<rfloor> then \<lfloor>q\<rfloor> + 1
                   else if even \<lfloor>q\<rfloor> then \<lfloor>q\<rfloor> else \<lfloor>q\<rfloor> + 1)"
  have r: "?r p \<le> ?r q" if "p \<le> q" for p q :: real
  proof (cases "\<lfloor>p\<rfloor> = \<lfloor>q\<rfloor>")
    case True
    with that show ?thesis by auto
  next
    case False
    with that have "\<lfloor>p\<rfloor> < \<lfloor>q\<rfloor>" by (simp add: floor_mono order.not_eq_order_implies_strict)
    then have "\<lfloor>p\<rfloor> + 1 \<le> \<lfloor>q\<rfloor>" by simp
    moreover have "?r p \<le> \<lfloor>p\<rfloor> + 1" by simp
    moreover have "\<lfloor>q\<rfloor> \<le> ?r q" by simp
    ultimately show ?thesis by linarith
  qed
  from uv have "u / 16 \<le> v / 16" by simp
  from r[OF this] show "round_to_16 u \<le> round_to_16 v"
    by (simp add: round_to_16_def Let_def)
qed

section \<open>Reading a signal: \<open>at\<close>\<close>

text \<open>
  What \<open>at\<close> returns on a signal whose times do not decrease: never the exception of its
  bounds check; before the begin time, an extrapolation from the first sample; between
  two breakpoints, an interpolation from the later one.
\<close>

lemma begin_le_end:
  assumes "sorted (map time samples)"
  shows "begin_time samples \<le> end_time samples"
proof (cases "samples = []")
  case True
  then show ?thesis by (simp add: begin_time_def end_time_def)
next
  case False
  with assms have "map time samples ! 0 \<le> map time samples ! (length samples - 1)"
    by (intro sorted_nth_mono) auto
  with False show ?thesis by (simp add: begin_time_def end_time_def hd_conv_nth last_conv_nth)
qed

lemma at_never_domain_error:
  assumes "sorted (map time samples)"
  shows "at_time samples t \<noteq> Inl DomainError"
proof -
  from begin_le_end[OF assms] have "\<not> (begin_time samples > t \<and> end_time samples < t)" by simp
  then show ?thesis by (simp add: at_time_def Let_def)
qed

lemma at_before_begin:
  assumes "sorted (map time samples)" and "samples \<noteq> []" and "t < begin_time samples"
  shows "at_time samples t = Inr (Sample t (interpolate (hd samples) t) (derivative (hd samples)))"
proof -
  from assms(2,3) obtain a as where s: "samples = a # as" and a: "t < time a"
    by (cases samples) (auto simp: begin_time_def)
  from begin_le_end[OF assms(1)] assms(3)
  have "\<not> (begin_time samples > t \<and> end_time samples < t)" by simp
  with s a show ?thesis by (simp add: at_time_def lower_bound_def)
qed

lemma at_between_breakpoints:
  assumes srt: "sorted (map time samples)"
    and k: "Suc k < length samples"
    and lo: "time (samples ! k) < t"
    and hi: "t < time (samples ! Suc k)"
  shows "at_time samples t
           = Inr (Sample t (interpolate (samples ! Suc k) t) (derivative (samples ! Suc k)))"
proof -
  have below: "time (samples ! i) < t" if "i < Suc k" for i
  proof -
    from srt that k have "map time samples ! i \<le> map time samples ! k"
      by (intro sorted_nth_mono) auto
    with that k lo show ?thesis by simp
  qed
  have "takeWhile (\<lambda>s. time s < t) samples = take (Suc k) samples"
    using below hi by (intro takeWhile_eq_take_P_nth) auto
  with k have lb: "lower_bound samples t = Suc k" by (simp add: lower_bound_def)
  from begin_le_end[OF srt] have "\<not> (begin_time samples > t \<and> end_time samples < t)" by simp
  with lb k hi show ?thesis by (simp add: at_time_def)
qed

text \<open>
  C2. Between two breakpoints, \<open>at(t)\<close> is to interpolate along the slope cached on the
  sample before \<open>t\<close>, so that after \<open>push_back(0, 0)\<close> and \<open>push_back(2, 4)\<close> the first
  sample has slope 2 and \<open>at(1)\<close> has value 2. The first sample does get slope 2. But
  \<open>at\<close> interpolates from the sample that \<open>lower_bound\<close> returns, the first one timed at
  or after \<open>t\<close>: \<open>at(1)\<close> reads the sample \<open>(2, 4)\<close> with slope 0 and returns value 4.
\<close>

theorem at_interpolates_from_sample_after:
  "push_back_tv [] 0 (Fin 0) = Inr [Sample 0 (Fin 0) (Fin 0)]
   \<and> push_back_tv [Sample 0 (Fin 0) (Fin 0)] 2 (Fin 4)
       = Inr [Sample 0 (Fin 0) (Fin 2), Sample 2 (Fin 4) (Fin 0)]
   \<and> at_time [Sample 0 (Fin 0) (Fin 2), Sample 2 (Fin 4) (Fin 0)] 1
       = Inr (Sample 1 (Fin 4) (Fin 0))"
  by code_simp

text \<open>
  C3. For a time outside \<open>[begin_time, end_time]\<close>, \<open>at(t)\<close> is to fail with
  \<open>DomainError\<close>. The test of the source, \<open>begin_time() > t && end_time() < t\<close>, asks for
  a time below the begin time and above the end time at once. On the signal
  \<open>(0, 0), (2, 4)\<close>, \<open>at(-1)\<close> returns a sample extrapolated from the first one.
\<close>

theorem at_before_begin_returns_sample:
  "at_time [Sample 0 (Fin 0) (Fin 2), Sample 2 (Fin 4) (Fin 0)] (- 1)
     = Inr (Sample (- 1) (Fin (- 2)) (Fin 2))"
  by code_simp

lemma lower_bound_past_end:
  assumes "sorted (map time samples)" and "samples \<noteq> []" and "end_time samples < t"
  shows "lower_bound samples t = length samples"
proof -
  have "time s < t" if "s \<in> set samples" for s
  proof -
    from that obtain k where k: "k < length samples" and s: "s = samples ! k"
      by (auto simp: in_set_conv_nth)
    from assms(1) k have "map time samples ! k \<le> map time samples ! (length samples - 1)"
      by (intro sorted_nth_mono) auto
    with k assms(2) s have "time s \<le> time (last samples)"
      by (simp add: last_conv_nth)
    with assms(2,3) show ?thesis by (simp add: end_time_def)
  qed
  then have "takeWhile (\<lambda>s. time s < t) samples = samples"
    by simp
  then show ?thesis by (simp only: lower_bound_def)
qed

lemma at_time_head:
  assumes "r \<noteq> []" and "time (hd r) = t"
  shows "at_time r t = Inr (hd r)"
proof -
  from assms obtain a as where r: "r = a # as" and a: "time a = t" by (cases r) auto
  then show ?thesis by (simp add: at_time_def begin_time_def lower_bound_def)
qed

text \<open>
  C10. For a non-empty signal and a time after its end time, the bounds check of \<open>at\<close>
  does not trigger, \<open>lower_bound\<close> returns the position past the end, and \<open>at\<close>
  dereferences it; the same happens on the empty signal for every time. The signal is
  one whose times do not decrease, as every signal built by \<open>push_back\<close> is.
\<close>

theorem at_past_end_out_of_bounds:
  assumes "sorted (map time samples)" and "samples = [] \<or> end_time samples < t"
  shows "\<not> (begin_time samples > t \<and> end_time samples < t)
         \<and> lower_bound samples t = length samples
         \<and> at_time samples t = Inl OutOfBounds"
proof (cases "samples = []")
  case True
  then show ?thesis by (simp add: at_time_def begin_time_def end_time_def lower_bound_def)
next
  case False
  with assms have e: "end_time samples < t" by simp
  from assms(1) False e have lb: "lower_bound samples t = length samples"
    by (rule lower_bound_past_end)
  from begin_le_end[OF assms(1)] e
  have chk: "\<not> (begin_time samples > t \<and> end_time samples < t)" by simp
  with lb show ?thesis by (simp add: at_time_def)
qed

theorem at_past_end_out_of_bounds_witness:
  "at_time [] 1 = Inl OutOfBounds
   \<and> sorted (map time [Sample 0 (Fin 0) (Fin 2), Sample 2 (Fin 4) (Fin 0)])
   \<and> end_time [Sample 0 (Fin 0) (Fin 2), Sample 2 (Fin 4) (Fin 0)] < 3
   \<and> lower_bound [Sample 0 (Fin 0) (Fin 2), Sample 2 (Fin 4) (Fin 0)] 3 = 2
   \<and> at_time [Sample 0 (Fin 0) (Fin 2), Sample 2 (Fin 4) (Fin 0)] 3 = Inl OutOfBounds"
proof -
  have e: "sorted (map time [])" by simp
  have s: "sorted (map time [Sample 0 (Fin 0) (Fin 2), Sample 2 (Fin 4) (Fin 0)])" by simp
  have l: "end_time [Sample 0 (Fin 0) (Fin 2), Sample 2 (Fin 4) (Fin 0)] < 3"
    by (simp add: end_time_def)
  from at_past_end_out_of_bounds[OF e, of 1]
       at_past_end_out_of_bounds[OF s disjI2, OF l] s l
  show ?thesis by simp
qed

section \<open>\<open>resize\<close>\<close>

text \<open>
  C7. Every sample timed within \<open>[start, end]\<close> is to appear verbatim in the result of
  \<open>resize(start, end, fill)\<close>. The first branch of the loop, meant for a sample timed
  below \<open>start\<close> whose successor is timed after \<open>start\<close>, tests the successor only. On
  the signal \<open>(0, 0), (1, 1), (2, 0)\<close>, \<open>resize(0, 2, 7)\<close> replaces the samples at times 0
  and 1 by samples interpolated at time 0: no sample at time 1 is left.
\<close>

theorem resize_replaces_sample_in_range:
  "from_samples [Sample 0 (Fin 0) (Fin 0), Sample 1 (Fin 1) (Fin 0), Sample 2 (Fin 0) (Fin 0)]
     = Inr [Sample 0 (Fin 0) (Fin 1), Sample 1 (Fin 1) (Fin (- 1)), Sample 2 (Fin 0) (Fin 0)]
   \<and> resize [Sample 0 (Fin 0) (Fin 1), Sample 1 (Fin 1) (Fin (- 1)), Sample 2 (Fin 0) (Fin 0)]
        0 2 (Fin 7)
     = Inr [Sample 0 (Fin 0) PInf, Sample 0 (Fin 2) (Fin (- 1)), Sample 2 (Fin 0) (Fin 0)]"
  by code_simp

lemma resize_loop_done:
  "length samples \<le> i \<Longrightarrow> resize_loop samples start end' i sig = Inr sig"
  by (simp add: resize_loop.simps)

lemma end_time_push_back:
  assumes "push_back sig s = Inr r"
  shows "end_time r = time s"
proof -
  from push_back_times[OF assms] have m: "map time r = map time sig @ [time s]" .
  then have "r \<noteq> []" by auto
  then have "time (last r) = last (map time r)" by (simp add: last_map)
  with m \<open>r \<noteq> []\<close> show ?thesis by (simp add: end_time_def)
qed

lemma all_times_end_time:
  assumes "sig \<noteq> []" and "\<forall>s\<in>set sig. time s = t"
  shows "end_time sig = t"
  using assms by (simp add: end_time_def)

lemma set_times_push_back:
  assumes "push_back sig s = Inr r"
  shows "time ` set r = insert (time s) (time ` set sig)"
proof -
  from push_back_times[OF assms] have "set (map time r) = set (map time sig @ [time s])" by simp
  then show ?thesis by auto
qed

lemma resize_loop_above_start:
  assumes "\<forall>k<length x. start < time (x ! k)"
    and "i < length x"
    and "sig \<noteq> []"
    and "\<forall>s\<in>set sig. time s = start"
  shows "\<exists>r. resize_loop x start end' i sig = Inr r
            \<and> (time (last x) < end' \<longrightarrow>
                 end_time r = time (last x)
                 \<and> (\<forall>s\<in>set r. time s = start \<or> time s = time (last x)))"
  using assms
proof (induction x start end' i sig rule: resize_loop.induct)
  case (1 samples start end' i sig)
  note unf = resize_loop.simps[of samples start end' i sig]
  from "1.prems" have inb: "\<not> length samples \<le> i" by simp
  from "1.prems"(3,4) have et: "end_time sig = start" by (rule all_times_end_time)
  show ?case
  proof (cases "Suc i < length samples")
    case True
    with "1.prems"(1) have b1: "Suc i < length samples \<and> start < time (samples ! Suc i)" by simp
    from et obtain sig' where
      pb: "push_back sig (Sample start (interpolate (samples ! i) start) (Fin 0)) = Inr sig'"
      using push_back_succeeds[of sig "Sample start (interpolate (samples ! i) start) (Fin 0)"]
      by auto
    from push_back_times[OF pb] have ne: "sig' \<noteq> []" by auto
    from set_times_push_back[OF pb] "1.prems"(4) have all': "\<forall>s\<in>set sig'. time s = start"
      by auto
    from "1.IH"(1)[OF inb b1 pb "1.prems"(1) True ne all'] 
    show ?thesis using inb b1 pb by (simp add: unf)
  next
    case False
    with inb have i: "i = length samples - 1" and ne: "samples \<noteq> []" by auto
    then have li: "samples ! i = last samples" by (simp add: last_conv_nth)
    from "1.prems"(1,2) have st: "start < time (samples ! i)" by simp
    have fin: "resize_loop samples start end' (Suc i) s' = Inr s'" for s'
      using False by (intro resize_loop_done) simp
    show ?thesis
    proof (cases "time (samples ! i) \<le> end'")
      case True
      from et st obtain sig' where pb: "push_back sig (samples ! i) = Inr sig'"
        using push_back_succeeds[of sig "samples ! i"] by auto
      from False inb st True pb have res: "resize_loop samples start end' i sig = Inr sig'"
        by (simp add: unf fin)
      from end_time_push_back[OF pb] have e: "end_time sig' = time (last samples)"
        by (simp add: li)
      from set_times_push_back[OF pb] "1.prems"(4) li
      have "\<forall>s\<in>set sig'. time s = start \<or> time s = time (last samples)" by auto
      with res e show ?thesis by simp
    next
      case gt: False
      show ?thesis
      proof (cases "i \<noteq> 0 \<and> time (samples ! (i - 1)) < end'")
        case True
        with "1.prems"(1,2) have "start < end'"
          by (metis less_imp_diff_less less_trans)
        with et obtain sig' where
          pb: "push_back sig (Sample end' (interpolate (samples ! (i - 1)) end') (Fin 0)) = Inr sig'"
          using push_back_succeeds[of sig "Sample end' (interpolate (samples ! (i - 1)) end') (Fin 0)"]
          by auto
        from False inb st gt True pb have "resize_loop samples start end' i sig = Inr sig'"
          by (simp add: unf fin)
        with gt li show ?thesis by simp
      next
        case F: False
        with False inb st gt have "resize_loop samples start end' i sig = Inr sig"
          by (auto simp add: unf)
        with gt li show ?thesis by simp
      qed
    qed
  qed
qed

text \<open>
  C8. For \<open>start\<close> below the begin time of \<open>x\<close>, \<open>resize(start, end, fill)\<close> returns a
  signal that begins at \<open>start\<close> and whose sample at \<open>start\<close>, as \<open>at\<close> returns it, has value
  \<open>fill\<close>. When \<open>x\<close> ends before \<open>end\<close>, the result has no sample at time \<open>end\<close>: it ends
  at the end time of \<open>x\<close>, or at \<open>start\<close> when \<open>x\<close> is empty. The signal \<open>x\<close> is one whose
  times do not decrease.
\<close>

theorem resize_extends_left:
  assumes srt: "sorted (map time x)" and lt: "start < begin_time x"
  shows "\<exists>r. resize x start end' fill = Inr r
            \<and> begin_time r = start
            \<and> (\<exists>s. at_time r start = Inr s \<and> val s = fill)
            \<and> (end_time x < end' \<longrightarrow>
                 (\<forall>s\<in>set r. time s \<noteq> end')
                 \<and> end_time r = (if x = [] then start else end_time x))"
proof (cases "x = []")
  case True
  with lt have neg: "start < 0" by (simp add: begin_time_def)
  from True neg have "resize x start end' fill = Inr [Sample start fill (Fin 0)]"
    by (simp add: resize_def begin_time_def push_back_def resize_loop_done)
  moreover have "at_time [Sample start fill (Fin 0)] start = Inr (Sample start fill (Fin 0))"
    using at_time_head[of "[Sample start fill (Fin 0)]" start] by simp
  ultimately show ?thesis using True neg by (auto simp: begin_time_def end_time_def)
next
  case False
  let ?s0 = "[Sample start fill (Fin 0)]"
  let ?P = "\<lambda>sig. sig \<noteq> [] \<and> time (hd sig) = start \<and> val (hd sig) = fill"
  from False lt have b: "start < time (x ! 0)" by (simp add: begin_time_def hd_conv_nth)
  from False have len: "0 < length x" by simp
  have above: "\<forall>k<length x. start < time (x ! k)"
  proof (intro allI impI)
    fix k assume k: "k < length x"
    with srt have "map time x ! 0 \<le> map time x ! k" by (intro sorted_nth_mono) auto
    with k b len show "start < time (x ! k)" by simp
  qed
  have "\<exists>r. resize_loop x start end' 0 ?s0 = Inr r
            \<and> (time (last x) < end' \<longrightarrow>
                 end_time r = time (last x)
                 \<and> (\<forall>s\<in>set r. time s = start \<or> time s = time (last x)))"
    using above len by (rule resize_loop_above_start) simp_all
  then obtain r where loop: "resize_loop x start end' 0 ?s0 = Inr r"
    and fin: "time (last x) < end' \<longrightarrow>
                end_time r = time (last x)
                \<and> (\<forall>s\<in>set r. time s = start \<or> time s = time (last x))"
    by blast
  from lt loop have res: "resize x start end' fill = Inr r"
    by (simp add: resize_def push_back_def)
  have step: "\<forall>sig s r. ?P sig \<longrightarrow> push_back sig s = Inr r \<longrightarrow> ?P r"
    using push_back_head by metis
  have "?P ?s0" by simp
  with step have hd: "?P r" using loop by (rule resize_loop_preserves[where P = ?P])
  then have bt: "begin_time r = start" by (simp add: begin_time_def)
  from hd have at: "at_time r start = Inr (hd r)" by (intro at_time_head) auto
  have tail: "(\<forall>s\<in>set r. time s \<noteq> end') \<and> end_time r = end_time x" if e: "end_time x < end'"
  proof -
    from e False have l: "time (last x) < end'" by (simp add: end_time_def)
    from above len have "start < time (x ! (length x - 1))" by simp
    with False have "start < time (last x)" by (simp add: last_conv_nth)
    with l fin False show ?thesis by (auto simp: end_time_def)
  qed
  from res bt at hd tail False show ?thesis by auto
qed

theorem resize_extends_left_witness:
  "sorted (map time [Sample 0 (Fin 0) (Fin 2), Sample 2 (Fin 4) (Fin 0)])
   \<and> - 1 < begin_time [Sample 0 (Fin 0) (Fin 2), Sample 2 (Fin 4) (Fin 0)]
   \<and> end_time [Sample 0 (Fin 0) (Fin 2), Sample 2 (Fin 4) (Fin 0)] < 3
   \<and> (\<exists>r. resize [Sample 0 (Fin 0) (Fin 2), Sample 2 (Fin 4) (Fin 0)] (- 1) 3 (Fin 5) = Inr r
          \<and> begin_time r = - 1
          \<and> (\<exists>s. at_time r (- 1) = Inr s \<and> val s = Fin 5)
          \<and> 3 \<notin> time ` set r
          \<and> end_time r = 2)"
proof -
  let ?x = "[Sample 0 (Fin 0) (Fin 2), Sample 2 (Fin 4) (Fin 0)]"
  have s: "sorted (map time ?x)" by simp
  have b: "- 1 < begin_time ?x" by (simp add: begin_time_def)
  have e: "end_time ?x < 3" by (simp add: end_time_def)
  have e2: "end_time ?x = 2" by (simp add: end_time_def)
  from resize_extends_left[OF s b, of 3 "Fin 5"] e e2 s b show ?thesis by auto
qed

section \<open>\<open>simplify\<close>\<close>

text \<open>
  C9. \<open>simplify(x).at(t)\<close> is to equal \<open>x.at(t)\<close> for every \<open>t\<close> in the domain. On the
  signal \<open>(0, 0), (1, 1), (2, 1), (3, 1), (4, 0)\<close>, \<open>simplify\<close> drops the sample at time 2,
  which lies on the flat stretch from 1 to 3, and keeps the first and the last sample.
  \<open>at(3/2)\<close> reads the sample after \<open>3/2\<close>: that is \<open>(2, 1)\<close> with slope 0 in \<open>x\<close>, giving
  value 1, and \<open>(3, 1)\<close> with slope \<open>-1\<close> in the simplified signal, giving value \<open>5/2\<close>.
\<close>

theorem simplify_changes_at:
  "from_samples [Sample 0 (Fin 0) (Fin 0), Sample 1 (Fin 1) (Fin 0), Sample 2 (Fin 1) (Fin 0),
                 Sample 3 (Fin 1) (Fin 0), Sample 4 (Fin 0) (Fin 0)]
     = Inr [Sample 0 (Fin 0) (Fin 1), Sample 1 (Fin 1) (Fin 0), Sample 2 (Fin 1) (Fin 0),
            Sample 3 (Fin 1) (Fin (- 1)), Sample 4 (Fin 0) (Fin 0)]
   \<and> simplify [Sample 0 (Fin 0) (Fin 1), Sample 1 (Fin 1) (Fin 0), Sample 2 (Fin 1) (Fin 0),
               Sample 3 (Fin 1) (Fin (- 1)), Sample 4 (Fin 0) (Fin 0)]
     = Inr [Sample 0 (Fin 0) (Fin 1), Sample 1 (Fin 1) (Fin 0),
            Sample 3 (Fin 1) (Fin (- 1)), Sample 4 (Fin 0) (Fin 0)]
   \<and> at_time [Sample 0 (Fin 0) (Fin 1), Sample 1 (Fin 1) (Fin 0), Sample 2 (Fin 1) (Fin 0),
              Sample 3 (Fin 1) (Fin (- 1)), Sample 4 (Fin 0) (Fin 0)] (3 / 2)
     = Inr (Sample (3 / 2) (Fin 1) (Fin 0))
   \<and> at_time [Sample 0 (Fin 0) (Fin 1), Sample 1 (Fin 1) (Fin 0),
              Sample 3 (Fin 1) (Fin (- 1)), Sample 4 (Fin 0) (Fin 0)] (3 / 2)
     = Inr (Sample (3 / 2) (Fin (5 / 2)) (Fin (- 1)))"
  by code_simp

section \<open>\<open>synchronize\<close>\<close>

text \<open>
  When the later of the two begin times is a breakpoint of both signals, and sample times
  strictly increase, the merge loop starts with a breakpoint the signals share and emits
  every time into both outputs: the outputs have the same times, from the later begin
  time to the earlier end time.
\<close>

lemma lower_bound_at_breakpoint:
  assumes srt: "sorted (map time x)" and mem: "b \<in> time ` set x"
  shows "lower_bound x b < length x \<and> time (x ! lower_bound x b) = b"
proof -
  let ?P = "\<lambda>s. time s < b"
  let ?n = "length (takeWhile ?P x)"
  from mem obtain k where k: "k < length x" and xk: "time (x ! k) = b"
    by (auto simp: in_set_conv_nth)
  have nk: "?n \<le> k"
  proof (rule ccontr)
    assume "\<not> ?n \<le> k"
    then have "k < ?n" by simp
    then have "takeWhile ?P x ! k \<in> set (takeWhile ?P x)" and "takeWhile ?P x ! k = x ! k"
      by (rule nth_mem, rule takeWhile_nth)
    then have "?P (x ! k)" by (metis set_takeWhileD)
    with xk show False by simp
  qed
  with k have n: "?n < length x" by simp
  then have "\<not> ?P (x ! ?n)" by (rule nth_length_takeWhile)
  moreover from srt nk k have "map time x ! ?n \<le> map time x ! k" by (intro sorted_nth_mono) auto
  ultimately have "time (x ! ?n) = b" using n k xk by simp
  with n show ?thesis by (simp add: lower_bound_def)
qed

lemma strict_nth_le_end:
  assumes "sorted_wrt (<) (map time x)" and "k < length x"
  shows "time (x ! k) \<le> end_time x"
proof -
  from assms(1) have "sorted (map time x)" by (rule strict_sorted_imp_sorted)
  with assms(2) have "map time x ! k \<le> map time x ! (length x - 1)"
    by (intro sorted_nth_mono) auto
  with assms(2) show ?thesis by (auto simp: end_time_def last_conv_nth)
qed

lemma strict_nth_Suc:
  assumes "sorted_wrt (<) (map time x)" and "Suc k < length x"
  shows "time (x ! k) < time (x ! Suc k)"
  using sorted_wrt_nth_less[OF assms(1), of k "Suc k"] assms(2) by simp

lemma end_time_last_index:
  assumes "Suc k = length x"
  shows "end_time x = time (x ! k)"
proof -
  from assms have "x \<noteq> []" and "length x - 1 = k" by auto
  then show ?thesis by (simp add: end_time_def last_conv_nth)
qed

lemma sync_loop_aligned:
  assumes "sorted_wrt (<) (map time x)" and "sorted_wrt (<) (map time y)"
    and "i \<le> length x" and "j \<le> length y"
    and "xv \<noteq> []" and "map time xv = map time yv" and "sorted_wrt (<) (map time xv)"
    and "i < length x \<longrightarrow> time (last xv) < time (x ! i)"
    and "j < length y \<longrightarrow> time (last xv) < time (y ! j)"
    and "i = length x \<or> j = length y \<longrightarrow> time (last xv) = min (end_time x) (end_time y)"
    and "0 < i" and "0 < j"
  shows "\<exists>xv' yv'. sync_loop x y i j xv yv = Inr (xv', yv')
           \<and> xv' \<noteq> [] \<and> map time xv' = map time yv' \<and> sorted_wrt (<) (map time xv')
           \<and> hd (map time xv') = hd (map time xv)
           \<and> time (last xv') = min (end_time x) (end_time y)"
  using assms
proof (induction x y i j xv yv rule: sync_loop.induct)
  case (1 x y i j xv yv)
  note unf = sync_loop.simps[of x y i j xv yv]
  note sx = "1.prems"(1) and sy = "1.prems"(2)
  have app: "sorted_wrt (<) (map time (xv @ [a]))" if "time (last xv) < time a" for a
  proof -
    have "u < time a" if "u \<in> set (map time xv)" for u
    proof -
      from "1.prems"(7) have "sorted (map time xv)" by (rule strict_sorted_imp_sorted)
      moreover from that obtain k where "k < length xv" and "u = map time xv ! k"
        by (auto simp: in_set_conv_nth)
      ultimately have "u \<le> map time xv ! (length xv - 1)"
        using sorted_nth_mono[of "map time xv" k "length xv - 1"] by auto
      with "1.prems"(5) have "u \<le> time (last xv)" by (simp add: last_conv_nth)
      with \<open>time (last xv) < time a\<close> show ?thesis by simp
    qed
    with "1.prems"(7) show ?thesis by (simp add: sorted_wrt_append)
  qed
  show ?case
  proof (cases "i < length x \<and> j < length y")
    case False
    then have "sync_loop x y i j xv yv = Inr (xv, yv)"
      unfolding unf by (simp only: if_False)
    moreover from False "1.prems"(3,4,10) have "time (last xv) = min (end_time x) (end_time y)"
      by auto
    ultimately show ?thesis using "1.prems"(5,6,7) by simp
  next
    case inb: True
    then have i: "i < length x" and j: "j < length y" by simp_all
    from i "1.prems"(8) have li: "time (last xv) < time (x ! i)" by simp
    from j "1.prems"(9) have lj: "time (last xv) < time (y ! j)" by simp
    show ?thesis
    proof (cases "time (x ! i) = time (y ! j)")
      case eq: True
      have "\<exists>xv' yv'. sync_loop x y (Suc i) (Suc j) (xv @ [x ! i]) (yv @ [y ! j]) = Inr (xv', yv')
           \<and> xv' \<noteq> [] \<and> map time xv' = map time yv' \<and> sorted_wrt (<) (map time xv')
           \<and> hd (map time xv') = hd (map time (xv @ [x ! i]))
           \<and> time (last xv') = min (end_time x) (end_time y)"
      proof (rule "1.IH"(1)[OF inb eq sx sy])
        show "Suc i \<le> length x" "Suc j \<le> length y" using i j by simp_all
        show "xv @ [x ! i] \<noteq> []" by simp
        show "map time (xv @ [x ! i]) = map time (yv @ [y ! j])" using "1.prems"(6) eq by simp
        show "sorted_wrt (<) (map time (xv @ [x ! i]))" using li by (rule app)
        show "Suc i < length x \<longrightarrow> time (last (xv @ [x ! i])) < time (x ! Suc i)"
          using strict_nth_Suc[OF sx] by simp
        show "Suc j < length y \<longrightarrow> time (last (xv @ [x ! i])) < time (y ! Suc j)"
          using strict_nth_Suc[OF sy] eq by simp
        show "Suc i = length x \<or> Suc j = length y \<longrightarrow>
                time (last (xv @ [x ! i])) = min (end_time x) (end_time y)"
          using strict_nth_le_end[OF sx i] strict_nth_le_end[OF sy j] eq
            end_time_last_index[of i x] end_time_last_index[of j y]
          by auto
        show "0 < Suc i" "0 < Suc j" by simp_all
      qed
      then show ?thesis using inb eq "1.prems"(5) by (simp add: unf)
    next
      case ne: False
      show ?thesis
      proof (cases "time (x ! i) < time (y ! j)")
        case lt: True
        from "1.prems"(12) have j0: "j \<noteq> 0" by simp
        let ?s = "Sample (time (x ! i)) (interpolate (y ! (j - 1)) (time (x ! i))) (Fin 0)"
        have "\<exists>xv' yv'. sync_loop x y (Suc i) j (xv @ [x ! i]) (yv @ [?s]) = Inr (xv', yv')
           \<and> xv' \<noteq> [] \<and> map time xv' = map time yv' \<and> sorted_wrt (<) (map time xv')
           \<and> hd (map time xv') = hd (map time (xv @ [x ! i]))
           \<and> time (last xv') = min (end_time x) (end_time y)"
        proof (rule "1.IH"(2)[OF inb ne lt j0 sx sy])
          show "Suc i \<le> length x" "j \<le> length y" using i j by simp_all
          show "xv @ [x ! i] \<noteq> []" by simp
          show "map time (xv @ [x ! i]) = map time (yv @ [?s])" using "1.prems"(6) by simp
          show "sorted_wrt (<) (map time (xv @ [x ! i]))" using li by (rule app)
          show "Suc i < length x \<longrightarrow> time (last (xv @ [x ! i])) < time (x ! Suc i)"
            using strict_nth_Suc[OF sx] by simp
          show "j < length y \<longrightarrow> time (last (xv @ [x ! i])) < time (y ! j)"
            using lt by simp
          show "Suc i = length x \<or> j = length y \<longrightarrow>
                  time (last (xv @ [x ! i])) = min (end_time x) (end_time y)"
            using strict_nth_le_end[OF sy j] lt j end_time_last_index[of i x] by auto
          show "0 < Suc i" "0 < j" using "1.prems"(12) by simp_all
        qed
        then show ?thesis using inb ne lt j0 "1.prems"(5) by (simp add: unf)
      next
        case ge: False
        with ne have gt: "time (y ! j) < time (x ! i)" by simp
        from "1.prems"(11) have i0: "i \<noteq> 0" by simp
        let ?s = "Sample (time (y ! j)) (interpolate (x ! (i - 1)) (time (y ! j))) (Fin 0)"
        have "\<exists>xv' yv'. sync_loop x y i (Suc j) (xv @ [?s]) (yv @ [y ! j]) = Inr (xv', yv')
           \<and> xv' \<noteq> [] \<and> map time xv' = map time yv' \<and> sorted_wrt (<) (map time xv')
           \<and> hd (map time xv') = hd (map time (xv @ [?s]))
           \<and> time (last xv') = min (end_time x) (end_time y)"
        proof (rule "1.IH"(3)[OF inb ne ge i0 sx sy])
          show "i \<le> length x" "Suc j \<le> length y" using i j by simp_all
          show "xv @ [?s] \<noteq> []" by simp
          show "map time (xv @ [?s]) = map time (yv @ [y ! j])" using "1.prems"(6) by simp
          show "sorted_wrt (<) (map time (xv @ [?s]))" using lj by (intro app) simp
          show "i < length x \<longrightarrow> time (last (xv @ [?s])) < time (x ! i)"
            using gt by simp
          show "Suc j < length y \<longrightarrow> time (last (xv @ [?s])) < time (y ! Suc j)"
            using strict_nth_Suc[OF sy] by simp
          show "i = length x \<or> Suc j = length y \<longrightarrow>
                  time (last (xv @ [?s])) = min (end_time x) (end_time y)"
            using strict_nth_le_end[OF sx i] gt i end_time_last_index[of j y] by auto
          show "0 < i" "0 < Suc j" using "1.prems"(11) by simp_all
        qed
        then show ?thesis using inb ne ge i0 "1.prems"(5) by (simp add: unf)
      qed
    qed
  qed
qed


lemma push_all_sorted:
  assumes "sorted (map time sig @ map time data)"
  shows "\<exists>r. push_all sig data = Inr r \<and> map time r = map time sig @ map time data"
  using assms
proof (induction data arbitrary: sig)
  case Nil
  then show ?case by simp
next
  case (Cons s data)
  have "sig = [] \<or> end_time sig \<le> time s"
  proof (cases "sig = []")
    case False
    then have "last (map time sig) \<in> set (map time sig)" by (intro last_in_set) simp
    with Cons.prems have "last (map time sig) \<le> time s" by (auto simp: sorted_append)
    with False show ?thesis by (simp add: end_time_def last_map)
  qed simp
  then obtain sig' where pb: "push_back sig s = Inr sig'"
    using push_back_succeeds by blast
  from push_back_times[OF pb] have t: "map time sig' = map time sig @ [time s]" .
  with Cons.prems have "sorted (map time sig' @ map time data)" by simp
  from Cons.IH[OF this] pb t show ?case by simp
qed

lemma times_begin_end:
  "r \<noteq> [] \<Longrightarrow> begin_time r = hd (map time r) \<and> end_time r = last (map time r)"
  by (simp add: begin_time_def end_time_def hd_map last_map)

lemma synchronize_aligned:
  assumes sx: "strictly_increasing x" and sy: "strictly_increasing y"
    and memx: "max (begin_time x) (begin_time y) \<in> time ` set x"
    and memy: "max (begin_time x) (begin_time y) \<in> time ` set y"
  shows "\<exists>x' y'. synchronize x y = Inr (x', y')
           \<and> map time x' = map time y'
           \<and> begin_time x' = max (begin_time x) (begin_time y)
           \<and> begin_time y' = max (begin_time x) (begin_time y)
           \<and> end_time x' = min (end_time x) (end_time y)
           \<and> end_time y' = min (end_time x) (end_time y)"
proof -
  define b where "b = max (begin_time x) (begin_time y)"
  define i where "i = lower_bound x b"
  define j where "j = lower_bound y b"
  from sx sy have stx: "sorted_wrt (<) (map time x)" and sty: "sorted_wrt (<) (map time y)"
    by (simp_all add: strictly_increasing_def)
  then have "sorted (map time x)" and "sorted (map time y)"
    by (simp_all add: strict_sorted_imp_sorted)
  with memx memy have i: "i < length x" and ti: "time (x ! i) = b"
    and j: "j < length y" and tj: "time (y ! j) = b"
    using lower_bound_at_breakpoint[of x b] lower_bound_at_breakpoint[of y b]
    by (simp_all add: b_def i_def j_def)
  from i ti have leadx: "sync_lead b x i x i = Inr []" by (simp add: sync_lead_def)
  from j tj have leady: "sync_lead b y j x i = Inr []" by (simp add: sync_lead_def)
  from i j ti tj have first:
    "sync_loop x y i j [] [] = sync_loop x y (Suc i) (Suc j) [x ! i] [y ! j]"
    by (simp add: sync_loop.simps[of x y i j])
  have "\<exists>xv' yv'. sync_loop x y (Suc i) (Suc j) [x ! i] [y ! j] = Inr (xv', yv')
           \<and> xv' \<noteq> [] \<and> map time xv' = map time yv' \<and> sorted_wrt (<) (map time xv')
           \<and> hd (map time xv') = hd (map time [x ! i])
           \<and> time (last xv') = min (end_time x) (end_time y)"
  proof (rule sync_loop_aligned[OF stx sty])
    show "Suc i \<le> length x" "Suc j \<le> length y" using i j by simp_all
    show "[x ! i] \<noteq> []" "sorted_wrt (<) (map time [x ! i])" by simp_all
    show "map time [x ! i] = map time [y ! j]" using ti tj by simp
    show "Suc i < length x \<longrightarrow> time (last [x ! i]) < time (x ! Suc i)"
      using strict_nth_Suc[OF stx, of i] by simp
    show "Suc j < length y \<longrightarrow> time (last [x ! i]) < time (y ! Suc j)"
      using strict_nth_Suc[OF sty, of j] ti tj by simp
    show "Suc i = length x \<or> Suc j = length y \<longrightarrow>
            time (last [x ! i]) = min (end_time x) (end_time y)"
      using strict_nth_le_end[OF stx i] strict_nth_le_end[OF sty j] ti tj
        end_time_last_index[of i x] end_time_last_index[of j y]
      by auto
    show "0 < Suc i" "0 < Suc j" by simp_all
  qed
  then obtain xv yv where loop: "sync_loop x y i j [] [] = Inr (xv, yv)"
    and ne: "xv \<noteq> []" and eq: "map time xv = map time yv"
    and srt: "sorted_wrt (<) (map time xv)"
    and hdv: "hd (map time xv) = b" and lastv: "time (last xv) = min (end_time x) (end_time y)"
    using first ti by auto
  from ne eq have ney: "yv \<noteq> []" by auto
  from ne ney eq have "time (last yv) = time (last xv)" by (metis last_map)
  with ne ney have fin: "sync_finish xv yv = Inr (xv, yv)" by (simp add: sync_finish_def)
  from srt have s1: "sorted (map time [] @ map time xv)" by (simp add: strict_sorted_imp_sorted)
  with eq have s2: "sorted (map time [] @ map time yv)" by simp
  from push_all_sorted[OF s1] obtain x' where x': "push_all [] xv = Inr x'"
    and tx: "map time x' = map time xv" by auto
  from push_all_sorted[OF s2] obtain y' where y': "push_all [] yv = Inr y'"
    and ty: "map time y' = map time yv" by auto
  from x' y' have mk: "make_signals xv yv = Inr (x', y')"
    by (simp add: make_signals_def from_samples_def)
  from leadx leady loop fin mk have res: "synchronize x y = Inr (x', y')"
    by (simp add: synchronize_def Let_def b_def[symmetric] i_def[symmetric] j_def[symmetric])
  from tx ne have nx: "x' \<noteq> []" by auto
  from ty ney have ny: "y' \<noteq> []" by auto
  from ne have "last (map time xv) = time (last xv)" by (simp add: last_map)
  with times_begin_end[OF nx] times_begin_end[OF ny] tx ty eq hdv lastv
  have "begin_time x' = b" "begin_time y' = b"
    "end_time x' = min (end_time x) (end_time y)" "end_time y' = min (end_time x) (end_time y)"
    by simp_all
  with res tx ty eq show ?thesis unfolding b_def by auto
qed

text \<open>
  The scenario of two signals that begin and end together: \<open>x\<close> with samples
  \<open>(0, 0), (1, 1), (2, 0)\<close> and \<open>y\<close> with samples \<open>(0, 1), (2, 1)\<close>. The outputs share
  the times 0, 1, 2, with \<open>y\<close> interpolated at time 1.
\<close>

lemma synchronize_scenario:
  "synchronize
     [Sample 0 (Fin 0) (Fin 1), Sample 1 (Fin 1) (Fin (- 1)), Sample 2 (Fin 0) (Fin 0)]
     [Sample 0 (Fin 1) (Fin 0), Sample 2 (Fin 1) (Fin 0)]
   = Inr ([Sample 0 (Fin 0) (Fin 1), Sample 1 (Fin 1) (Fin (- 1)), Sample 2 (Fin 0) (Fin 0)],
          [Sample 0 (Fin 1) (Fin 0), Sample 1 (Fin 1) (Fin 0), Sample 2 (Fin 1) (Fin 0)])"
  by code_simp

text \<open>
  C1. For signals with overlapping domains, the outputs of \<open>synchronize\<close> are to have the
  same sequence of breakpoint times, from the later begin time to the earlier end time.
  When \<open>x\<close> begins before \<open>y\<close> and has no breakpoint at the begin time of \<open>y\<close>, the code
  first puts a leading sample at that time into \<open>xv\<close>, and the first round of the merge
  loop, which finds the first sample of \<open>y\<close> timed before the current one of \<open>x\<close>, puts a
  second sample at the same time into \<open>xv\<close>. For \<open>x\<close> with samples \<open>(0, 0), (3, 3)\<close> and
  \<open>y\<close> with samples \<open>(1, 0), (2, 0)\<close> the output times are 1, 1, 2 and 1, 2.
\<close>

theorem synchronize_repeats_leading_time:
  "from_samples [Sample 0 (Fin 0) (Fin 0), Sample 3 (Fin 3) (Fin 0)]
     = Inr [Sample 0 (Fin 0) (Fin 1), Sample 3 (Fin 3) (Fin 0)]
   \<and> from_samples [Sample 1 (Fin 0) (Fin 0), Sample 2 (Fin 0) (Fin 0)]
     = Inr [Sample 1 (Fin 0) (Fin 0), Sample 2 (Fin 0) (Fin 0)]
   \<and> synchronize [Sample 0 (Fin 0) (Fin 1), Sample 3 (Fin 3) (Fin 0)]
                 [Sample 1 (Fin 0) (Fin 0), Sample 2 (Fin 0) (Fin 0)]
     = Inr ([Sample 1 (Fin 1) NaN, Sample 1 (Fin 1) (Fin 1), Sample 2 (Fin 2) (Fin 0)],
            [Sample 1 (Fin 0) (Fin 0), Sample 2 (Fin 0) (Fin 0)])"
  by code_simp

text \<open>
  With the arguments exchanged, the leading sample of \<open>yv\<close> takes its slope from
  \<open>std::prev(i)\<close>, where \<open>i\<close> is the first position of \<open>x\<close>: a read before the vector.
\<close>

lemma synchronize_reads_before_begin:
  "synchronize [Sample 1 (Fin 0) (Fin 0), Sample 2 (Fin 0) (Fin 0)]
               [Sample 0 (Fin 0) (Fin 1), Sample 3 (Fin 3) (Fin 0)]
     = Inl OutOfBounds"
  by code_simp

end
